theory Spec2Isabelle
  imports Main "HOL-Library.Word"
begin

unbundle bit_operations_syntax

section \<open>Bit-layout constants\<close>

text \<open>
  The board of \<open>internal/position\<close> has \<open>W = 7\<close> columns and \<open>H = 6\<close> rows. A column takes
  \<open>H + 1\<close> bits of a \<open>uint64\<close>: cell (column \<open>c\<close>, row \<open>r\<close>) is bit \<open>r + c * (H + 1)\<close>, and bit
  \<open>H + c * (H + 1)\<close> is the extra (sentinel) bit above the column.
\<close>

type_synonym uint64 = "64 word"

definition W :: nat where
  "W = 7"

definition H :: nat where
  "H = 6"

definition BoardSize :: nat where
  "BoardSize = W * H"

definition Centre :: nat where
  "Centre = W div 2"

text \<open>
  Columns are passed as \<open>nat\<close>: Go's \<open>int\<close> column is used as a shift count, a negative one
  panics, and every caller in the package passes a value from \<open>0\<close> to \<open>9\<close>. A shift by 64 or
  more gives \<open>0\<close> in Go as it does for \<open>push_bit\<close> on \<open>64 word\<close>.
\<close>

definition top_mask_col :: "nat \<Rightarrow> uint64" where
  "top_mask_col col = push_bit (H - 1 + col * (H + 1)) 1"

definition bottom_mask_col :: "nat \<Rightarrow> uint64" where
  "bottom_mask_col col = push_bit (col * (H + 1)) 1"

definition column_mask :: "nat \<Rightarrow> uint64" where
  "column_mask col = push_bit (col * (H + 1)) (push_bit H 1 - 1)"

text \<open>The loop \<open>for i := 0; i < W; i++ { mask |= bottom_mask_col(i) }\<close>.\<close>

definition bottom_mask :: uint64 where
  "bottom_mask = fold (\<lambda>i m. m OR bottom_mask_col i) [0..<W] 0"

definition board_mask :: uint64 where
  "board_mask = bottom_mask * (push_bit H 1 - 1)"

section \<open>The position and its errors\<close>

record Position =
  Board :: uint64
  Mask :: uint64
  moves :: int

text \<open>
  The five error structs. Each carries its fields in the order of the Go declaration; a field
  that a struct literal leaves out is Go's zero value \<open>0\<close>. A \<open>rune\<close> is a Unicode code
  point.
\<close>

type_synonym rune = nat

datatype error =
    InvalidBoardStringLength int int
  | InvalidCharacter rune int
  | InvalidColumn int int
  | InvalidFullColumnMove int int
  | InvalidWinningMove int int

definition NewPosition :: Position where
  "NewPosition = \<lparr>Board = 0, Mask = 0, moves = 0\<rparr>"

section \<open>Move engine\<close>

text \<open>
  \<open>return self.Mask&top_mask_col(col) != 0\<close>: in Go \<open>&\<close> binds tighter than \<open>!=\<close>.
\<close>

definition IsPlayable :: "Position \<Rightarrow> nat \<Rightarrow> bool" where
  "IsPlayable self col \<longleftrightarrow> Mask self AND top_mask_col col \<noteq> 0"

text \<open>
  \<open>return self.Mask + bottom_mask()&board_mask()\<close>: in Go \<open>&\<close> is a multiplication operator
  and binds tighter than \<open>+\<close>, so the conjunction is taken first.
\<close>

definition Possible :: "Position \<Rightarrow> uint64" where
  "Possible self = Mask self + (bottom_mask AND board_mask)"

definition Play :: "Position \<Rightarrow> nat \<Rightarrow> Position" where
  "Play self col =
     \<lparr>Board = Board self XOR Mask self,
      Mask = Mask self OR (Mask self + bottom_mask_col col),
      moves = moves self + 1\<rparr>"

section \<open>Win detector\<close>

definition compute_winning_position :: "uint64 \<Rightarrow> uint64 \<Rightarrow> uint64" where
  "compute_winning_position position msk =
     (let r = push_bit 1 position AND push_bit 2 position AND push_bit 3 position;
          p = push_bit (H + 1) position AND push_bit (2 * (H + 1)) position;
          r = r OR (p AND push_bit (3 * (H + 1)) position);
          r = r OR (p AND drop_bit (H + 1) position);
          p = drop_bit (3 * (H + 1)) p;
          r = r OR (p AND push_bit (H + 1) position);
          r = r OR (p AND drop_bit (3 * (H + 1)) position);
          p2 = push_bit H position AND push_bit (2 * H) position;
          r = r OR (p2 AND push_bit (3 * H) position);
          r = r OR (p2 AND drop_bit H position);
          p2 = drop_bit (3 * H) p2;
          r = r OR (p2 AND push_bit H position);
          r = r OR (p2 AND drop_bit (3 * H) position);
          p3 = push_bit (H + 2) position AND push_bit (2 * (H + 2)) position;
          r = r OR (p3 AND push_bit (3 * (H + 2)) position);
          r = r OR (p3 AND drop_bit (H + 2) position);
          p3 = drop_bit (3 * (H + 2)) p3;
          r = r OR (p3 AND push_bit (H + 2) position);
          r = r OR (p3 AND drop_bit (3 * (H + 2)) position)
      in r AND (board_mask XOR msk))"

definition winning_positions :: "Position \<Rightarrow> uint64" where
  "winning_positions self = compute_winning_position (Board self) (Mask self)"

definition opponent_winning_position :: "Position \<Rightarrow> uint64" where
  "opponent_winning_position self =
     compute_winning_position (Board self XOR Mask self) (Mask self)"

definition IsWinningMove :: "Position \<Rightarrow> nat \<Rightarrow> bool" where
  "IsWinningMove self col \<longleftrightarrow>
     winning_positions self AND Possible self AND column_mask col > 0"

definition CanWinNext :: "Position \<Rightarrow> bool" where
  "CanWinNext self \<longleftrightarrow> winning_positions self AND Possible self > 0"

definition PossibleNonLosingMoves :: "Position \<Rightarrow> uint64" where
  "PossibleNonLosingMoves self =
     (let possible = Possible self;
          opponent_wins = opponent_winning_position self;
          forced_moves = possible AND opponent_wins
      in if forced_moves > 0 \<and> forced_moves AND (forced_moves - 1) > 0
         then 0
         else (let possible = (if forced_moves > 0 then forced_moves else possible)
               in possible AND NOT (drop_bit 1 opponent_wins)))"

text \<open>
  \<open>count_ones\<close> clears the lowest set bit until nothing is left; the counter is a \<open>uint8\<close>.
\<close>

function count_ones_loop :: "uint64 \<Rightarrow> 8 word \<Rightarrow> 8 word" where
  "count_ones_loop msk count =
     (if msk \<noteq> 0 then count_ones_loop (msk AND (msk - 1)) (count + 1) else count)"
  by pat_completeness auto
termination
proof (relation "measure (\<lambda>(msk, count). unat msk)")
  show "wf (measure (\<lambda>(msk :: uint64, count :: 8 word). unat msk))"
    by simp
next
  fix msk :: uint64 and count :: "8 word"
  assume nz: "msk \<noteq> 0"
  have "msk AND (msk - 1) \<le> msk - 1"
    by (rule word_and_le1)
  moreover have "msk - 1 < msk"
    using nz by (simp add: word_less_nat_alt unat_minus_one unat_gt_0)
  ultimately have "msk AND (msk - 1) < msk"
    by simp
  then show "((msk AND (msk - 1), count + 1), msk, count)
      \<in> measure (\<lambda>(msk, count). unat msk)"
    by (simp add: word_less_nat_alt)
qed

declare count_ones_loop.simps [simp del]

definition count_ones :: "uint64 \<Rightarrow> 8 word" where
  "count_ones msk = count_ones_loop msk 0"

definition ScoreMove :: "Position \<Rightarrow> uint64 \<Rightarrow> 8 word" where
  "ScoreMove self move_bit =
     count_ones (compute_winning_position (Board self OR move_bit) (Mask self))"

section \<open>Canonical key\<close>

text \<open>
  The body of the loop of \<open>get_mirrored_bitmasks\<close>, on the pair of accumulators: column
  \<open>col\<close> goes up to column \<open>W - 1 - col\<close> and that column comes down, in both masks.
\<close>

definition mirror_step :: "Position \<Rightarrow> nat \<Rightarrow> uint64 \<times> uint64 \<Rightarrow> uint64 \<times> uint64" where
  "mirror_step self col acc =
     (let (mirrored_position, mirrored_mask) = acc;
          mirrored_col = W - 1 - col;
          shift = (mirrored_col - col) * (H + 1)
      in (mirrored_position OR (push_bit shift (Board self AND column_mask col)
                                OR drop_bit shift (Board self AND column_mask mirrored_col)),
          mirrored_mask OR (push_bit shift (Mask self AND column_mask col)
                            OR drop_bit shift (Mask self AND column_mask mirrored_col))))"

definition get_mirrored_bitmasks :: "Position \<Rightarrow> uint64 \<times> uint64" where
  "get_mirrored_bitmasks self =
     (let (mirrored_position, mirrored_mask) = fold (mirror_step self) [0..<Centre] (0, 0)
      in if W AND 1 = 1
         then (mirrored_position OR (Board self AND column_mask Centre),
               mirrored_mask OR (Mask self AND column_mask Centre))
         else (mirrored_position, mirrored_mask))"

definition GetKey :: "Position \<Rightarrow> uint64" where
  "GetKey self =
     (let key = Board self + Mask self;
          (mirrored_position, mirrored_mask) = get_mirrored_bitmasks self;
          mirrored_key = mirrored_position + mirrored_mask
      in if mirrored_key < key then mirrored_key else key)"

section \<open>Parsers\<close>

text \<open>
  A Go string is a sequence of bytes: input strings are lists of 8-bit characters. Go ranges
  over the runes of a string; a rune outside ASCII is made of bytes from 128 on and is not,
  after \<open>strings.ToLower\<close>, one of \<open>.\<close>, \<open>o\<close>, \<open>x\<close>, so the board-string filter drops it byte by
  byte as Go drops the rune. \<open>ToLower\<close> below is \<open>strings.ToLower\<close> on ASCII.
\<close>

definition to_lower_char :: "char \<Rightarrow> char" where
  "to_lower_char c =
     (if 65 \<le> (of_char c :: nat) \<and> (of_char c :: nat) \<le> 90
      then char_of (of_char c + 32 :: nat) else c)"

definition ToLower :: "string \<Rightarrow> string" where
  "ToLower s = map to_lower_char s"

text \<open>
  The second loop of \<open>PositionFromBoardString\<close>, \<open>for i, c := range chars\<close>, on the triple
  \<open>(board, mask, moves)\<close>. \<open>row\<close> and \<open>bit_index\<close> are Go \<open>int\<close>s; the loop only runs on a
  slice of \<open>BoardSize\<close> characters, where \<open>bit_index\<close> is never negative.
\<close>

fun board_loop :: "nat \<Rightarrow> string \<Rightarrow> uint64 \<times> uint64 \<times> int \<Rightarrow> uint64 \<times> uint64 \<times> int" where
  "board_loop i [] st = st"
| "board_loop i (c # cs) (board, msk, mv) =
     (if c = CHR ''.'' then board_loop (i + 1) cs (board, msk, mv)
      else
        (let row = int H - int (i div W) - 1;
             col = int (i mod W);
             bit_index = row + col * (int H + 1);
             board_bit = (if c = CHR ''x'' then 1 else 0)
         in board_loop (i + 1) cs
              (board OR push_bit (nat bit_index) board_bit,
               msk OR push_bit (nat bit_index) 1,
               mv + 1)))"

definition PositionFromBoardString :: "string \<Rightarrow> error + Position" where
  "PositionFromBoardString board_string =
     (let chars = filter (\<lambda>c. c = CHR ''.'' \<or> c = CHR ''o'' \<or> c = CHR ''x'')
                    (ToLower board_string)
      in if length chars \<noteq> BoardSize
         then Inl (InvalidBoardStringLength (int (length chars)) (int BoardSize))
         else (case board_loop 0 chars (0, 0, 0) of
                 (board, msk, mv) \<Rightarrow> Inr \<lparr>Board = board, Mask = msk, moves = mv\<rparr>))"

text \<open>
  \<open>for i, c := range s\<close> decodes the string as UTF-8: \<open>c\<close> is the rune that starts at byte
  \<open>i\<close>. \<open>first_rune\<close> is the rune at the head of a string, by Go's rules: one byte below 128;
  a lead byte from \<open>0xC2\<close> to \<open>0xF4\<close> with one to three continuation bytes in the ranges the
  lead byte accepts; anything else is the rune \<open>U+FFFD\<close> (65533), one byte wide.
\<close>

definition byte_in :: "char \<Rightarrow> nat \<Rightarrow> nat \<Rightarrow> bool" where
  "byte_in b lo hi \<longleftrightarrow> lo \<le> of_char b \<and> of_char b \<le> hi"

fun first_rune :: "string \<Rightarrow> rune" where
  "first_rune [] = 65533"
| "first_rune (b0 # bs) =
     (let x = (of_char b0 :: nat)
      in if x < 128 then x
         else if 194 \<le> x \<and> x \<le> 223 then
           (case bs of
              b1 # _ \<Rightarrow>
                if byte_in b1 128 191
                then (x - 192) * 64 + (of_char b1 - 128)
                else 65533
            | _ \<Rightarrow> 65533)
         else if 224 \<le> x \<and> x \<le> 239 then
           (case bs of
              b1 # b2 # _ \<Rightarrow>
                if byte_in b1 (if x = 224 then 160 else 128) (if x = 237 then 159 else 191)
                   \<and> byte_in b2 128 191
                then (x - 224) * 4096 + (of_char b1 - 128) * 64 + (of_char b2 - 128)
                else 65533
            | _ \<Rightarrow> 65533)
         else if 240 \<le> x \<and> x \<le> 244 then
           (case bs of
              b1 # b2 # b3 # _ \<Rightarrow>
                if byte_in b1 (if x = 240 then 144 else 128) (if x = 244 then 143 else 191)
                   \<and> byte_in b2 128 191 \<and> byte_in b3 128 191
                then (x - 240) * 262144 + (of_char b1 - 128) * 4096
                     + (of_char b2 - 128) * 64 + (of_char b3 - 128)
                else 65533
            | _ \<Rightarrow> 65533)
         else 65533)"

text \<open>\<open>c >= '0' && c <= '9'\<close>, on the rune.\<close>

definition is_digit :: "rune \<Rightarrow> bool" where
  "is_digit c \<longleftrightarrow> 48 \<le> c \<and> c \<le> 57"

text \<open>
  The loop of \<open>PositionFromMoves\<close>, \<open>for i, c := range move_sequence\<close>, with the position, the
  variable \<open>col\<close>, the byte index \<open>i\<close> and the rest of the string from byte \<open>i\<close> on as
  arguments. The loop goes on only after a digit, which is one byte wide, so the next rune
  starts at \<open>i + 1\<close>. \<open>InvalidWinningMove{Column: col}\<close> and \<open>InvalidColumn{Column: col}\<close> leave
  \<open>Index\<close> out, so it is \<open>0\<close>.
\<close>

fun PositionFromMoves_loop :: "Position \<Rightarrow> int \<Rightarrow> nat \<Rightarrow> string \<Rightarrow> error + Position" where
  "PositionFromMoves_loop position col i [] =
     (if col = - 1 then Inl (InvalidColumn col 0) else Inr position)"
| "PositionFromMoves_loop position col i (b # bs) =
     (let c = first_rune (b # bs)
      in if is_digit c
         then (let col = int c - 48
               in if \<not> IsPlayable position (nat col)
                  then Inl (InvalidFullColumnMove (col + 1) (int i))
                  else if IsWinningMove position (nat col)
                  then Inl (InvalidWinningMove col 0)
                  else PositionFromMoves_loop (Play position (nat col)) col (i + 1) bs)
         else Inl (InvalidCharacter c (int i)))"

definition PositionFromMoves :: "string \<Rightarrow> error + Position" where
  "PositionFromMoves move_sequence = PositionFromMoves_loop NewPosition (- 1) 0 move_sequence"

section \<open>Notions used to state the properties\<close>

text \<open>The population count of a mask: the number of its bits that are set.\<close>

definition popcount :: "uint64 \<Rightarrow> nat" where
  "popcount w = length (filter (bit w) [0..<64])"

text \<open>
  Positions reached from the empty board by playing into columns that have room: the column
  exists and its top cell is empty.
\<close>

inductive reachable :: "Position \<Rightarrow> bool" where
  reachable_new: "reachable NewPosition"
| reachable_play:
    "reachable p \<Longrightarrow> col < W \<Longrightarrow> Mask p AND top_mask_col col = 0 \<Longrightarrow> reachable (Play p col)"

text \<open>
  What \<open>get_mirrored_bitmasks\<close> does to one mask: the loop treats \<open>Board\<close> and \<open>Mask\<close> alike.
\<close>

definition mirror_bits :: "uint64 \<Rightarrow> uint64" where
  "mirror_bits x = fst (get_mirrored_bitmasks \<lparr>Board = x, Mask = x, moves = 0\<rparr>)"

text \<open>
  \<open>y\<close> is \<open>x\<close> with the columns reversed: cell (column \<open>c\<close>, row \<open>r\<close>) of \<open>y\<close> is cell (column
  \<open>W - 1 - c\<close>, row \<open>r\<close>) of \<open>x\<close>, for the \<open>W\<close> columns and \<open>H\<close> rows of the board.
\<close>

definition mirror_of :: "uint64 \<Rightarrow> uint64 \<Rightarrow> bool" where
  "mirror_of x y \<longleftrightarrow>
     (\<forall>c \<in> {0..<W}. \<forall>r \<in> {0..<H}.
        bit y (r + c * (H + 1)) = bit x (r + (W - 1 - c) * (H + 1)))"

section \<open>Values of the masks\<close>

lemma bottom_mask_val: "bottom_mask = 0x40810204081"
  by (simp add: bottom_mask_def bottom_mask_col_def W_def H_def upt_rec)

lemma board_mask_val: "board_mask = 0xFDFBF7EFDFBF"
  by (simp add: board_mask_def bottom_mask_val H_def)

section \<open>IsPlayable\<close>

text \<open>
  What \<open>IsPlayable\<close> computes, for every position and column: it is true exactly when the top
  cell of the column is occupied.
\<close>

lemma IsPlayable_iff_top_bit:
  "IsPlayable self col \<longleftrightarrow> bit (Mask self) (H - 1 + col * (H + 1))"
proof -
  have "top_mask_col col = push_bit (H - 1 + col * (H + 1)) 1"
    by (simp add: top_mask_col_def)
  then show ?thesis
    by (simp add: IsPlayable_def and_exp_eq_0_iff_not_bit push_bit_eq_mult)
qed

text \<open>
  C1. The claim: \<open>IsPlayable(c)\<close> is true if and only if the top usable bit of column \<open>c\<close>, bit
  \<open>H - 1 + c * (H + 1)\<close>, is unset in the occupancy mask; it is true before the \<open>H\<close>-th disc goes
  into the column and false after it. The code does the opposite: on the empty board, where
  the top bit of column 3 is unset, \<open>IsPlayable(3)\<close> is false, and after six discs in column 3,
  where the top bit is set, it is true.
\<close>

theorem IsPlayable_empty_and_full:
  "\<not> bit (Mask NewPosition) (H - 1 + 3 * (H + 1))
   \<and> \<not> IsPlayable NewPosition 3
   \<and> bit (Mask (Play (Play (Play (Play (Play (Play NewPosition 3) 3) 3) 3) 3) 3))
         (H - 1 + 3 * (H + 1))
   \<and> IsPlayable (Play (Play (Play (Play (Play (Play NewPosition 3) 3) 3) 3) 3) 3) 3"
  by (simp add: IsPlayable_def NewPosition_def Play_def bottom_mask_col_def top_mask_col_def
      H_def)

section \<open>Runes\<close>

text \<open>
  A lead byte from 128 on never decodes to a rune below 128: a rune that is a digit is a
  single byte, and the rune after it starts one byte further.
\<close>

lemma first_rune_non_ascii:
  assumes "128 \<le> (of_char b :: nat)"
  shows "128 \<le> first_rune (b # bs)"
proof -
  define x where "x = (of_char b :: nat)"
  have x: "128 \<le> x" using assms by (simp add: x_def)
  have fr: "first_rune (b # bs) =
     (if 194 \<le> x \<and> x \<le> 223 then
           (case bs of
              b1 # _ \<Rightarrow>
                if byte_in b1 128 191
                then (x - 192) * 64 + (of_char b1 - 128)
                else 65533
            | _ \<Rightarrow> 65533)
         else if 224 \<le> x \<and> x \<le> 239 then
           (case bs of
              b1 # b2 # _ \<Rightarrow>
                if byte_in b1 (if x = 224 then 160 else 128) (if x = 237 then 159 else 191)
                   \<and> byte_in b2 128 191
                then (x - 224) * 4096 + (of_char b1 - 128) * 64 + (of_char b2 - 128)
                else 65533
            | _ \<Rightarrow> 65533)
         else if 240 \<le> x \<and> x \<le> 244 then
           (case bs of
              b1 # b2 # b3 # _ \<Rightarrow>
                if byte_in b1 (if x = 240 then 144 else 128) (if x = 244 then 143 else 191)
                   \<and> byte_in b2 128 191 \<and> byte_in b3 128 191
                then (x - 240) * 262144 + (of_char b1 - 128) * 4096
                     + (of_char b2 - 128) * 64 + (of_char b3 - 128)
                else 65533
            | _ \<Rightarrow> 65533)
         else 65533)"
    using x unfolding first_rune.simps x_def [symmetric] Let_def by simp
  consider "194 \<le> x \<and> x \<le> 223" | "224 \<le> x \<and> x \<le> 239" | "240 \<le> x \<and> x \<le> 244"
    | "\<not> (194 \<le> x \<and> x \<le> 223) \<and> \<not> (224 \<le> x \<and> x \<le> 239) \<and> \<not> (240 \<le> x \<and> x \<le> 244)"
    by blast
  then show ?thesis
  proof cases
    case 1
    then show ?thesis unfolding fr by (auto simp add: byte_in_def split: list.split)
  next
    case 2
    then show ?thesis unfolding fr by (auto simp add: byte_in_def split: list.split)
  next
    case 3
    then show ?thesis unfolding fr by (auto simp add: byte_in_def split: list.split)
  next
    case 4
    then have "first_rune (b # bs) = 65533" unfolding fr by (simp only: if_False)
    then show ?thesis by simp
  qed
qed


text \<open>So the rune is a digit exactly when the first byte is one.\<close>

lemma first_rune_digit:
  "is_digit (first_rune (b # bs)) \<longleftrightarrow> 48 \<le> (of_char b :: nat) \<and> (of_char b :: nat) \<le> 57"
proof (cases "(of_char b :: nat) < 128")
  case True
  then show ?thesis by (simp add: is_digit_def)
next
  case False
  then have "128 \<le> first_rune (b # bs)" by (intro first_rune_non_ascii) simp
  with False show ?thesis by (simp add: is_digit_def del: first_rune.simps)
qed

text \<open>The two bytes of \<open>U+00E9\<close> are rejected as that rune, at index 0.\<close>

lemma PositionFromMoves_two_byte_rune: "PositionFromMoves [CHR 0xC3, CHR 0xA9] = Inl (InvalidCharacter 233 0)"
  by (simp add: PositionFromMoves_def is_digit_def byte_in_def)

section \<open>PositionFromMoves on the empty board\<close>

text \<open>
  The loop starts from the empty position, where \<open>IsPlayable\<close> is false for every column, so
  the first character decides the result.
\<close>

lemma PositionFromMoves_cases:
  "PositionFromMoves s =
     (case s of
        [] \<Rightarrow> Inl (InvalidColumn (- 1) 0)
      | b # bs \<Rightarrow>
          if is_digit (first_rune s)
          then Inl (InvalidFullColumnMove (int (first_rune s) - 48 + 1) 0)
          else Inl (InvalidCharacter (first_rune s) 0))"
  by (cases s)
    (simp_all add: PositionFromMoves_def IsPlayable_def NewPosition_def Let_def
      del: first_rune.simps)

text \<open>
  C2. The claim: parsing \<open>"343"\<close> from the empty board succeeds, without
  \<open>InvalidFullColumnMove\<close>, and the position has move count 3. The code returns
  \<open>InvalidFullColumnMove{Column: 4, Index: 0}\<close> at the first character.
\<close>

theorem PositionFromMoves_343:
  "PositionFromMoves ''343'' = Inl (InvalidFullColumnMove 4 0)"
  by (simp add: PositionFromMoves_def is_digit_def IsPlayable_def NewPosition_def)

text \<open>
  C8. The claim: \<open>PositionFromMoves\<close> returns \<open>InvalidColumn\<close> with column \<open>-1\<close> for the empty
  string, and \<open>InvalidColumn\<close> for a digit that names no column (7, 8, 9). The first half
  holds; for the digits 7, 8 and 9 the code has no range check and returns
  \<open>InvalidFullColumnMove\<close> with the column plus one.
\<close>

theorem PositionFromMoves_empty_and_out_of_range:
  "PositionFromMoves [] = Inl (InvalidColumn (- 1) 0)
   \<and> PositionFromMoves ''7'' = Inl (InvalidFullColumnMove 8 0)
   \<and> PositionFromMoves ''8'' = Inl (InvalidFullColumnMove 9 0)
   \<and> PositionFromMoves ''9'' = Inl (InvalidFullColumnMove 10 0)"
  by (simp add: PositionFromMoves_def is_digit_def IsPlayable_def NewPosition_def)

section \<open>Possible\<close>

text \<open>What \<open>Possible\<close> computes: the conjunction with \<open>board_mask\<close> has no effect.\<close>

lemma Possible_eq: "Possible self = Mask self + bottom_mask"
  by (simp add: Possible_def bottom_mask_val board_mask_val)

text \<open>
  C3. The claim: \<open>Possible()\<close> equals \<open>(occupancy_mask + bottom_mask) & board_mask\<close>, so it lies
  within \<open>board_mask\<close> and a full column contributes no bit. After six discs in column 0 the
  code returns a mask with bit 6, the sentinel bit of column 0, set: it is not within
  \<open>board_mask\<close> and differs from the masked sum.
\<close>

theorem Possible_full_column:
  "Possible (Play (Play (Play (Play (Play (Play NewPosition 0) 0) 0) 0) 0) 0) = 0x408102040C0
   \<and> (Mask (Play (Play (Play (Play (Play (Play NewPosition 0) 0) 0) 0) 0) 0) + bottom_mask)
        AND board_mask = 0x40810204080
   \<and> bit (Possible (Play (Play (Play (Play (Play (Play NewPosition 0) 0) 0) 0) 0) 0)) H"
  by (simp add: Possible_def NewPosition_def Play_def bottom_mask_col_def bottom_mask_val
      board_mask_val H_def)

section \<open>Population count\<close>

text \<open>
  The bits of a natural number, counted along its binary digits, and what clearing the lowest
  set bit (\<open>n & (n - 1)\<close>) does to their number.
\<close>

lemma finite_bits_nat: "finite {i. bit (n::nat) i}"
proof -
  have "{i. bit n i} \<subseteq> {i. i \<le> n}"
  proof
    fix i assume "i \<in> {i. bit n i}"
    then have "2 ^ i \<le> n" by (simp add: bit_iff_odd) (metis div_less even_zero linorder_not_less)
    moreover have "i < 2 ^ i" by simp
    ultimately have "i < n" by linarith
    then show "i \<in> {i. i \<le> n}" by simp
  qed
  then show ?thesis by (rule finite_subset) simp
qed

lemma bits_double: "{i. bit (2 * n :: nat) i} = Suc ` {i. bit n i}"
proof -
  have "bit (2 * n) i \<longleftrightarrow> i \<in> Suc ` {i. bit n i}" for i
    by (cases i) (auto simp add: bit_Suc bit_0)
  then show ?thesis by blast
qed

lemma bits_Suc_double: "{i. bit (Suc (2 * n)) i} = insert 0 (Suc ` {i. bit n i})"
proof -
  have "bit (Suc (2 * n)) i \<longleftrightarrow> i \<in> insert 0 (Suc ` {i. bit n i})" for i
    by (cases i) (auto simp add: bit_Suc bit_0)
  then show ?thesis by blast
qed

lemma card_bits_double: "card {i. bit (2 * n :: nat) i} = card {i. bit n i}"
  by (simp add: bits_double card_image)

lemma card_bits_Suc_double: "card {i. bit (Suc (2 * n)) i} = Suc (card {i. bit n i})"
proof -
  have "0 \<notin> Suc ` {i. bit n i}" by blast
  moreover have "finite (Suc ` {i. bit n i})" by (simp add: finite_bits_nat)
  ultimately show ?thesis
    by (simp add: bits_Suc_double card_image)
qed

lemma card_bits_pos: "0 < n \<Longrightarrow> 0 < card {i. bit (n::nat) i}"
proof -
  assume "0 < n"
  then have "\<exists>i. bit n i" by (metis bit_eq_iff bit_0_eq bot_nat_0.not_eq_extremum bot_apply bot_bool_def)
  then have "{i. bit n i} \<noteq> {}" by blast
  then show ?thesis by (simp add: card_gt_0_iff finite_bits_nat)
qed

lemma clear_lowest_nat:
  "0 < n \<Longrightarrow> card {i. bit (n AND (n - 1)) i} = card {i. bit (n::nat) i} - 1"
proof (induction n rule: nat_bit_induct)
  case zero
  then show ?case by simp
next
  case (even n)
  have "(2 * n - 1) div 2 = n - 1" using even.hyps by presburger
  then have "2 * n AND (2 * n - 1) = 2 * (n AND (n - 1))"
    by (subst and_nat_rec) simp
  with even show ?case by (simp add: card_bits_double)
next
  case (odd n)
  have "Suc (2 * n) AND (Suc (2 * n) - 1) = 2 * n"
    by (subst and_nat_rec) simp
  then show ?case by (simp add: card_bits_double card_bits_Suc_double)
qed


lemma popcount_card: "popcount w = card {i. bit w i}"
proof -
  have "{i. bit w i} = set (filter (bit w) [0..<64])"
    using bit_imp_le_length [of w] by auto
  moreover have "distinct (filter (bit w) [0..<64])"
    by simp
  then have "card (set (filter (bit w) [0..<64])) = length (filter (bit w) [0..<64])"
    by (rule distinct_card)
  ultimately show ?thesis
    by (simp only: popcount_def)
qed

lemma popcount_unat: "popcount w = card {i. bit (unat w) i}"
  by (simp add: popcount_card bit_unsigned_iff)

lemma popcount_clear_lowest:
  assumes "w \<noteq> 0"
  shows "popcount (w AND (w - 1)) = popcount w - 1"
proof -
  have "unat (w AND (w - 1)) = unat w AND (unat w - 1)"
    using assms by (simp add: unsigned_and_eq unat_minus_one)
  moreover have "0 < unat w"
    using assms by (simp add: unat_gt_0)
  ultimately show ?thesis
    using clear_lowest_nat [of "unat w"] by (simp add: popcount_unat)
qed

lemma popcount_eq_0_iff: "popcount w = 0 \<longleftrightarrow> w = 0"
proof
  assume "popcount w = 0"
  then have "unat w = 0"
    using card_bits_pos [of "unat w"] by (auto simp add: popcount_unat)
  then show "w = 0" by (simp add: unat_eq_0)
next
  assume "w = 0" then show "popcount w = 0" by (simp add: popcount_card)
qed

lemma and_pred_eq_0_iff: "w AND (w - 1) = 0 \<longleftrightarrow> popcount w \<le> 1"
proof (cases "w = 0")
  case True
  then show ?thesis by (simp add: popcount_card)
next
  case False
  have "w AND (w - 1) = 0 \<longleftrightarrow> popcount (w AND (w - 1)) = 0"
    by (simp add: popcount_eq_0_iff)
  also have "\<dots> \<longleftrightarrow> popcount w \<le> 1"
    using False by (simp add: popcount_clear_lowest)
  finally show ?thesis .
qed

text \<open>
  \<open>count_ones\<close>, the loop of the source, returns the population count (as a \<open>uint8\<close>; a mask
  has at most 64 bits).
\<close>

lemma count_ones_loop_popcount:
  "count_ones_loop msk count = count + of_nat (popcount msk)"
proof (induction msk count rule: count_ones_loop.induct)
  case (1 msk count)
  show ?case
  proof (cases "msk = 0")
    case True
    moreover have "popcount (0 :: uint64) = 0"
      by (simp add: popcount_eq_0_iff)
    ultimately show ?thesis
      by (subst count_ones_loop.simps) simp
  next
    case False
    then have "popcount msk \<noteq> 0"
      by (simp add: popcount_eq_0_iff)
    then have "Suc (popcount (msk AND (msk - 1))) = popcount msk"
      using False by (simp add: popcount_clear_lowest)
    then have "(1 :: 8 word) + of_nat (popcount (msk AND (msk - 1))) = of_nat (popcount msk)"
      by (metis of_nat_Suc)
    then show ?thesis
      using False "1.IH"
      by (subst count_ones_loop.simps) (simp add: add.assoc)
  qed
qed

lemma count_ones_popcount: "count_ones msk = of_nat (popcount msk)"
  by (simp add: count_ones_def count_ones_loop_popcount)

section \<open>compute_winning_position\<close>

lemma compute_winning_position_form:
  "\<exists>r. compute_winning_position position msk = r AND (board_mask XOR msk)"
  unfolding compute_winning_position_def Let_def by (rule exI) (rule refl)

text \<open>
  C7. For every player mask and every occupancy mask of a position, that is, one with no bit
  outside \<open>board_mask\<close> (the representation never sets a sentinel bit), the result of
  \<open>compute_winning_position\<close> is disjoint from the occupancy mask and lies within
  \<open>board_mask\<close>: a winning cell is an empty cell of the board.
\<close>

theorem compute_winning_position_empty_cells:
  assumes "msk AND NOT board_mask = 0"
  shows "compute_winning_position position msk AND msk = 0
         \<and> compute_winning_position position msk AND NOT board_mask = 0"
proof -
  obtain r where r: "compute_winning_position position msk = r AND (board_mask XOR msk)"
    using compute_winning_position_form by blast
  have sub: "bit msk n \<Longrightarrow> bit board_mask n" for n
    using assms
    by (metis bit_0_eq bit_and_iff bit_not_iff bot_apply bot_bool_def bit_imp_possible_bit)
  have "(r AND (board_mask XOR msk)) AND msk = 0"
    by (rule bit_eqI) (auto simp add: bit_and_iff bit_xor_iff dest: sub)
  moreover have "(r AND (board_mask XOR msk)) AND NOT board_mask = 0"
    by (rule bit_eqI) (auto simp add: bit_and_iff bit_xor_iff bit_not_iff dest: sub)
  ultimately show ?thesis by (simp add: r)
qed

text \<open>
  Three discs of the player at the bottom of column 0, nothing else on the board: the one
  winning cell is the fourth cell of the column.
\<close>

theorem compute_winning_position_empty_cells_witness:
  "(7 :: uint64) AND NOT board_mask = 0
   \<and> compute_winning_position 7 7 = 8
   \<and> compute_winning_position 7 7 AND 7 = 0
   \<and> compute_winning_position 7 7 AND NOT board_mask = 0"
proof -
  have h: "(7 :: uint64) AND NOT board_mask = 0"
    by (simp add: board_mask_val)
  have "compute_winning_position 7 7 = 8"
    by (simp add: compute_winning_position_def Let_def H_def board_mask_val)
  with h compute_winning_position_empty_cells [OF h, of 7] show ?thesis
    by simp
qed

section \<open>PossibleNonLosingMoves\<close>

text \<open>
  C5. With \<open>forced\<close> the opponent's winning-position mask intersected with \<open>Possible()\<close>: if
  \<open>forced\<close> has two or more bits set, \<open>PossibleNonLosingMoves()\<close> is the empty mask; if it has
  exactly one bit set, the result is that bit, less the cells below the opponent's winning
  cells; and in every case the result has no cell directly below one of the opponent's
  winning cells (the opponent's winning mask shifted down by one row).
\<close>

theorem PossibleNonLosingMoves_forced:
  "(2 \<le> popcount (Possible self AND opponent_winning_position self)
      \<longrightarrow> PossibleNonLosingMoves self = 0)
   \<and> (popcount (Possible self AND opponent_winning_position self) = 1
      \<longrightarrow> PossibleNonLosingMoves self =
          (Possible self AND opponent_winning_position self)
            AND NOT (drop_bit 1 (opponent_winning_position self)))
   \<and> PossibleNonLosingMoves self AND drop_bit 1 (opponent_winning_position self) = 0"
proof -
  let ?f = "Possible self AND opponent_winning_position self"
  have two: "0 < ?f AND (?f - 1) \<longleftrightarrow> 2 \<le> popcount ?f"
    using and_pred_eq_0_iff [of ?f] by (auto simp add: word_greater_zero_iff)
  have pos: "0 < ?f \<longleftrightarrow> 1 \<le> popcount ?f"
    using popcount_eq_0_iff [of ?f] by (auto simp add: word_greater_zero_iff)
  have disj: "(x AND NOT y) AND y = 0" for x y :: uint64
    by (rule bit_eqI) (simp add: bit_and_iff bit_not_iff)
  show ?thesis
    by (simp add: PossibleNonLosingMoves_def Let_def two pos disj)
qed

text \<open>
  Two positions of six discs. In the first the opponent holds the bottom cells of columns 1
  to 3 and both ends of the row are free: two winning replies, no non-losing move. In the
  second the player holds the bottom cell of column 0: one winning reply is left, the bottom
  cell of column 4, and it is the only non-losing move.
\<close>

theorem PossibleNonLosingMoves_forced_witness:
  "2 \<le> popcount (Possible \<lparr>Board = 0x408100, Mask = 0x60C180, moves = 6\<rparr>
                   AND opponent_winning_position \<lparr>Board = 0x408100, Mask = 0x60C180, moves = 6\<rparr>)
   \<and> PossibleNonLosingMoves \<lparr>Board = 0x408100, Mask = 0x60C180, moves = 6\<rparr> = 0
   \<and> popcount (Possible \<lparr>Board = 0x8101, Mask = 0x20C181, moves = 6\<rparr>
                 AND opponent_winning_position \<lparr>Board = 0x8101, Mask = 0x20C181, moves = 6\<rparr>) = 1
   \<and> PossibleNonLosingMoves \<lparr>Board = 0x8101, Mask = 0x20C181, moves = 6\<rparr> = 0x10000000
   \<and> PossibleNonLosingMoves \<lparr>Board = 0x8101, Mask = 0x20C181, moves = 6\<rparr>
         AND drop_bit 1 (opponent_winning_position \<lparr>Board = 0x8101, Mask = 0x20C181, moves = 6\<rparr>) = 0"
proof -
  let ?a = "\<lparr>Board = 0x408100, Mask = 0x60C180, moves = 6\<rparr>"
  let ?b = "\<lparr>Board = 0x8101, Mask = 0x20C181, moves = 6\<rparr>"
  have oa: "opponent_winning_position ?a = 0x10000001"
    by (simp add: opponent_winning_position_def compute_winning_position_def Let_def H_def
        board_mask_val)
  have ob: "opponent_winning_position ?b = 0x10000000"
    by (simp add: opponent_winning_position_def compute_winning_position_def Let_def H_def
        board_mask_val)
  have fa: "Possible ?a AND opponent_winning_position ?a = 0x10000001"
    by (simp add: oa Possible_eq bottom_mask_val)
  have fb: "Possible ?b AND opponent_winning_position ?b = 0x10000000"
    by (simp add: ob Possible_eq bottom_mask_val)
  have pa: "2 \<le> popcount (0x10000001 :: uint64)"
    using and_pred_eq_0_iff [of "0x10000001"] by simp
  have pb: "popcount (0x10000000 :: uint64) = 1"
    using and_pred_eq_0_iff [of "0x10000000"] popcount_eq_0_iff [of "0x10000000"] by simp
  have ha: "2 \<le> popcount (Possible ?a AND opponent_winning_position ?a)"
    unfolding fa by (rule pa)
  have hb: "popcount (Possible ?b AND opponent_winning_position ?b) = 1"
    unfolding fb by (rule pb)
  from PossibleNonLosingMoves_forced [of ?a] ha
  have ra: "PossibleNonLosingMoves ?a = 0"
    by blast
  from PossibleNonLosingMoves_forced [of ?b] hb
  have "PossibleNonLosingMoves ?b =
      (Possible ?b AND opponent_winning_position ?b)
        AND NOT (drop_bit 1 (opponent_winning_position ?b))"
    by blast
  then have rb: "PossibleNonLosingMoves ?b = 0x10000000"
    by (simp add: ob Possible_eq bottom_mask_val)
  from PossibleNonLosingMoves_forced [of ?b]
  have rc: "PossibleNonLosingMoves ?b AND drop_bit 1 (opponent_winning_position ?b) = 0"
    by blast
  from ha ra hb rb rc show ?thesis
    by blast
qed

section \<open>Play and the representation invariants\<close>

text \<open>The bits of \<open>board_mask\<close>: rows 0 to 5 of the seven columns.\<close>

lemma bit_board_mask_iff: "bit board_mask n \<longleftrightarrow> n < 49 \<and> n mod 7 < 6"
proof (cases "n < 64")
  case False
  then show ?thesis by (auto dest: bit_imp_le_length)
next
  case True
  have "\<forall>n \<in> set [0..<64]. bit (0xFDFBF7EFDFBF :: uint64) n \<longleftrightarrow> n < 49 \<and> n mod 7 < 6"
    by code_simp
  with True show ?thesis by (simp add: board_mask_val)
qed

text \<open>
  Adding the bottom bit of a column to a mask: when the bits \<open>k, \<dots>, k + h - 1\<close> are set and
  bit \<open>k + h\<close> is not, the carry of \<open>m + 2 ^ k\<close> stops at bit \<open>k + h\<close>, and \<open>m | (m + 2 ^ k)\<close> is
  \<open>m\<close> with that bit set.
\<close>

lemma add_carry_run:
  fixes m :: uint64
  assumes run: "\<And>r. r < h \<Longrightarrow> bit m (k + r)"
    and top: "\<not> bit m (k + h)"
    and len: "k + h < 64"
  shows "m OR (m + push_bit k 1) = m OR push_bit (k + h) 1"
proof -
  define b :: uint64 where "b = push_bit k (mask h)"
  define a :: uint64 where "a = m AND NOT (push_bit k (mask (Suc h)))"
  have m_or: "m = a OR b"
  proof (rule bit_word_eqI)
    fix n assume "n < LENGTH(64)"
    then show "bit m n \<longleftrightarrow> bit (a OR b) n"
      using run [of "n - k"] top len
      by (auto simp add: a_def b_def bit_or_iff bit_and_iff bit_not_iff bit_push_bit_iff
          bit_mask_iff less_Suc_eq)
  qed
  have ab: "a AND b = 0"
    by (rule bit_word_eqI)
      (auto simp add: a_def b_def bit_or_iff bit_and_iff bit_not_iff bit_push_bit_iff
        bit_mask_iff)
  have m_add: "m = a + b"
    using m_or ab by (simp add: disjunctive_add_eq_or)
  have "b + push_bit k 1 = push_bit k (mask h + 1)"
    by (simp add: b_def push_bit_add)
  also have "\<dots> = push_bit (k + h) 1"
    by (simp add: mask_eq_exp_minus_1 push_bit_eq_mult power_add mult.commute)
  finally have b1: "b + push_bit k 1 = push_bit (k + h) 1" .
  have a1: "a AND push_bit (k + h) 1 = 0"
    by (rule bit_word_eqI)
      (auto simp add: a_def bit_and_iff bit_not_iff bit_push_bit_iff bit_mask_iff bit_1_iff
        bit_exp_iff)
  have "m + push_bit k 1 = a + push_bit (k + h) 1"
    using m_add b1 by (simp add: add.assoc)
  also have "\<dots> = a OR push_bit (k + h) 1"
    using a1 by (rule disjunctive_add_eq_or)
  finally have "m OR (m + push_bit k 1) = m OR (a OR push_bit (k + h) 1)"
    by simp
  also have "\<dots> = m OR push_bit (k + h) 1"
    by (rule bit_word_eqI) (auto simp add: a_def bit_or_iff bit_and_iff)
  finally show ?thesis .
qed

lemma finite_bits_word: "finite {i. bit (w :: uint64) i}"
proof -
  have "{i. bit w i} \<subseteq> {..<64}"
    using bit_imp_le_length [of w] by auto
  then show ?thesis by (rule finite_subset) simp
qed

lemma popcount_set_bit:
  assumes "\<not> bit m j" and "j < 64"
  shows "popcount (m OR push_bit j 1) = Suc (popcount m)"
proof -
  have "{i. bit (m OR push_bit j 1) i} = insert j {i. bit m i}"
    using assms(2) by (auto simp add: bit_or_iff bit_push_bit_iff bit_1_iff bit_exp_iff)
  moreover have "j \<notin> {i. bit m i}"
    using assms(1) by simp
  ultimately show ?thesis
    by (simp add: popcount_card finite_bits_word)
qed

text \<open>
  \<open>Play\<close> into a column whose top cell is empty sets one new bit of the occupancy mask, the
  lowest empty cell of that column.
\<close>

lemma Play_Mask_step:
  assumes c: "c < 7" and free: "\<not> bit (Mask p) (7 * c + 5)"
  shows "\<exists>h\<le>5. \<not> bit (Mask p) (7 * c + h)
           \<and> Mask (Play p c) = Mask p OR push_bit (7 * c + h) 1"
proof -
  define h where "h = (LEAST r. \<not> bit (Mask p) (7 * c + r))"
  have h5: "h \<le> 5"
    unfolding h_def using free by (rule Least_le)
  have hfree: "\<not> bit (Mask p) (7 * c + h)"
    unfolding h_def using free by (rule LeastI)
  have run: "bit (Mask p) (7 * c + r)" if "r < h" for r
    using that not_less_Least [of r "\<lambda>r. \<not> bit (Mask p) (7 * c + r)"]
    by (auto simp add: h_def)
  have "7 * c + h < 64"
    using c h5 by simp
  with run hfree
  have "Mask p OR (Mask p + push_bit (7 * c) 1) = Mask p OR push_bit (7 * c + h) 1"
    by (intro add_carry_run) auto
  then have "Mask (Play p c) = Mask p OR push_bit (7 * c + h) 1"
    by (simp add: Play_def bottom_mask_col_def H_def mult.commute)
  with h5 hfree show ?thesis by blast
qed

lemma Play_invariants:
  assumes sub: "Board p AND Mask p = Board p"
    and cnt: "moves p = int (popcount (Mask p))"
    and inb: "Mask p AND NOT board_mask = 0"
    and c: "c < W" and free: "Mask p AND top_mask_col c = 0"
  shows "Board (Play p c) AND Mask (Play p c) = Board (Play p c)
         \<and> moves (Play p c) = int (popcount (Mask (Play p c)))
         \<and> Mask (Play p c) AND NOT board_mask = 0"
proof -
  have c7: "c < 7" using c by (simp add: W_def)
  have "\<not> bit (Mask p) (H - 1 + c * (H + 1))"
    using free IsPlayable_iff_top_bit [of p c] by (simp add: IsPlayable_def)
  then have "\<not> bit (Mask p) (7 * c + 5)"
    by (simp add: H_def add.commute mult.commute)
  with c7 obtain h where h: "h \<le> 5" "\<not> bit (Mask p) (7 * c + h)"
      "Mask (Play p c) = Mask p OR push_bit (7 * c + h) 1"
    using Play_Mask_step by blast
  have lt: "7 * c + h < 64" using c7 h(1) by simp
  have B: "Board (Play p c) = Board p XOR Mask p"
    by (simp add: Play_def)
  have subbit: "bit (Board p) n \<Longrightarrow> bit (Mask p) n" for n
    using sub by (metis bit_and_iff)
  have 1: "Board (Play p c) AND Mask (Play p c) = Board (Play p c)"
    unfolding B h(3)
    by (rule bit_word_eqI) (auto simp add: bit_and_iff bit_or_iff bit_xor_iff dest: subbit)
  have 2: "moves (Play p c) = int (popcount (Mask (Play p c)))"
    using cnt popcount_set_bit [OF h(2) lt] by (simp add: h(3)) (simp add: Play_def)
  have inbit: "bit (Mask p) n \<Longrightarrow> bit board_mask n" for n
    using inb by (metis bit_0_eq bit_and_iff bit_not_iff bot_apply bot_bool_def bit_imp_possible_bit)
  have "bit board_mask (7 * c + h)"
    using c7 h(1) by (simp add: bit_board_mask_iff)
  then have 3: "Mask (Play p c) AND NOT board_mask = 0"
    unfolding h(3)
    by (intro bit_word_eqI)
      (auto simp add: bit_and_iff bit_or_iff bit_not_iff bit_push_bit_iff bit_1_iff
        bit_exp_iff dest: inbit)
  from 1 2 3 show ?thesis by blast
qed

lemma reachable_inv:
  "reachable p \<Longrightarrow>
     Board p AND Mask p = Board p \<and> moves p = int (popcount (Mask p))
     \<and> Mask p AND NOT board_mask = 0"
proof (induction rule: reachable.induct)
  case reachable_new
  show ?case by (simp add: NewPosition_def popcount_card)
next
  case (reachable_play p col)
  then show ?case using Play_invariants [of p col] by blast
qed

text \<open>Both masks of a reached position lie within the board.\<close>

lemma reachable_within_board:
  assumes "reachable p"
  shows "Board p AND NOT board_mask = 0 \<and> Mask p AND NOT board_mask = 0"
proof -
  have inv: "Board p AND Mask p = Board p" "Mask p AND NOT board_mask = 0"
    using assms reachable_inv by blast+
  have "Board p AND NOT board_mask = (Board p AND Mask p) AND NOT board_mask"
    by (simp add: inv(1))
  also have "\<dots> = Board p AND (Mask p AND NOT board_mask)"
    by (simp add: and.assoc)
  also have "\<dots> = 0"
    by (simp add: inv(2))
  finally show ?thesis
    using inv(2) by simp
qed

text \<open>
  C4. Every position reached from the empty position by \<open>Play\<close> calls, each into a column
  \<open>c < W\<close> whose top cell is empty, has the current-player mask within the occupancy mask, a
  move count equal to the population count of the occupancy mask, and no sentinel bit
  (bit \<open>H + c * (H + 1)\<close>) in the occupancy mask. The positions after each \<open>Play\<close> of such a
  sequence are exactly the \<open>reachable\<close> ones.
\<close>

theorem reachable_invariants:
  assumes "reachable p"
  shows "Board p AND Mask p = Board p
         \<and> moves p = int (popcount (Mask p))
         \<and> (\<forall>c<W. \<not> bit (Mask p) (H + c * (H + 1)))"
proof -
  have inb: "Mask p AND NOT board_mask = 0"
    using assms reachable_inv by blast
  have "\<not> bit (Mask p) (H + c * (H + 1))" for c
  proof
    assume "bit (Mask p) (H + c * (H + 1))"
    then have "bit board_mask (H + c * (H + 1))"
      using inb by (metis bit_0_eq bit_and_iff bit_not_iff bot_apply bot_bool_def bit_imp_possible_bit)
    then show False
      by (simp add: bit_board_mask_iff H_def)
  qed
  with assms reachable_inv show ?thesis by blast
qed

text \<open>Six discs into column 3, which is then full, and one into column 0.\<close>

theorem reachable_invariants_witness:
  "reachable (Play (Play (Play (Play (Play (Play (Play NewPosition 3) 3) 3) 3) 3) 3) 0)
   \<and> Board (Play (Play (Play (Play (Play (Play (Play NewPosition 3) 3) 3) 3) 3) 3) 0)
       AND Mask (Play (Play (Play (Play (Play (Play (Play NewPosition 3) 3) 3) 3) 3) 3) 0)
       = Board (Play (Play (Play (Play (Play (Play (Play NewPosition 3) 3) 3) 3) 3) 3) 0)
   \<and> moves (Play (Play (Play (Play (Play (Play (Play NewPosition 3) 3) 3) 3) 3) 3) 0)
       = int (popcount (Mask (Play (Play (Play (Play (Play (Play (Play NewPosition 3) 3) 3) 3) 3) 3) 0)))
   \<and> moves (Play (Play (Play (Play (Play (Play (Play NewPosition 3) 3) 3) 3) 3) 3) 0) = 7
   \<and> \<not> bit (Mask (Play (Play (Play (Play (Play (Play (Play NewPosition 3) 3) 3) 3) 3) 3) 0))
         (H + 3 * (H + 1))"
proof -
  let ?p = "Play (Play (Play (Play (Play (Play (Play NewPosition 3) 3) 3) 3) 3) 3) 0"
  have r: "reachable ?p"
    by (intro reachable_play reachable_new)
      (simp_all add: Play_def NewPosition_def bottom_mask_col_def top_mask_col_def W_def H_def)
  have m: "moves ?p = 7"
    by (simp add: Play_def NewPosition_def)
  have "3 < W" by (simp add: W_def)
  with reachable_invariants [OF r] m r show ?thesis
    by blast
qed

section \<open>PositionFromBoardString\<close>

text \<open>
  Character \<open>i\<close> of the 42 significant characters is the cell of row \<open>5 - i div 7\<close> and column
  \<open>i mod 7\<close>; the shift count \<open>bit_index\<close> is never negative, and two characters never share
  a cell.
\<close>

lemma cell_index:
  assumes "i < 42"
  shows "nat (int H - int (i div W) - 1 + int (i mod W) * (int H + 1)) = 7 * (i mod 7) + (5 - i div 7)"
proof -
  have "i div 7 \<le> 5" using assms by simp
  then show ?thesis by (simp add: H_def W_def nat_add_distrib nat_diff_distrib' nat_mult_distrib)
qed

lemma cell_index_inj:
  fixes i j :: nat
  assumes "i < 42" "j < 42" "7 * (i mod 7) + (5 - i div 7) = 7 * (j mod 7) + (5 - j div 7)"
  shows "i = j"
proof -
  have le: "i div 7 \<le> 5" "j div 7 \<le> 5"
    using assms(1,2) by simp_all
  have "(7 * (i mod 7) + (5 - i div 7)) div 7 = i mod 7"
    by simp
  moreover have "(7 * (j mod 7) + (5 - j div 7)) div 7 = j mod 7"
    by simp
  ultimately have m: "i mod 7 = j mod 7"
    using assms(3) by simp
  then have "5 - i div 7 = 5 - j div 7"
    using assms(3) by simp
  with le have d: "i div 7 = j div 7"
    by simp
  have "i = 7 * (i div 7) + i mod 7" by simp
  also have "\<dots> = 7 * (j div 7) + j mod 7" by (simp only: m d)
  also have "\<dots> = j" by simp
  finally show ?thesis .
qed

text \<open>
  The invariant of the loop over the characters: the bits of the mask are cells of characters
  already read, the player's bits lie within the mask, and the counter is the number of bits.
\<close>

lemma board_loop_invariants:
  assumes "i + length cs \<le> 42"
    and "board AND msk = board"
    and "mv = int (popcount msk)"
    and "\<And>n. bit msk n \<Longrightarrow> \<exists>j<i. n = 7 * (j mod 7) + (5 - j div 7)"
    and "board_loop i cs (board, msk, mv) = (board', msk', mv')"
  shows "board' AND msk' = board' \<and> mv' = int (popcount msk')
         \<and> (\<forall>n. bit msk' n \<longrightarrow> (\<exists>j<42. n = 7 * (j mod 7) + (5 - j div 7)))"
  using assms
proof (induction cs arbitrary: i board msk mv)
  case Nil
  have "\<exists>j<42. n = 7 * (j mod 7) + (5 - j div 7)" if bm: "bit msk n" for n
  proof -
    obtain j where "j < i" "n = 7 * (j mod 7) + (5 - j div 7)"
      using Nil.prems(4) [OF bm] by blast
    moreover have "i \<le> 42" using Nil.prems(1) by simp
    ultimately show ?thesis by (intro exI [of _ j]) simp
  qed
  with Nil.prems show ?case by auto
next
  case (Cons c cs)
  have i42: "i < 42" using Cons.prems(1) by simp
  show ?case
  proof (cases "c = CHR ''.''")
    case True
    have "\<exists>j<i + 1. n = 7 * (j mod 7) + (5 - j div 7)" if "bit msk n" for n
      using Cons.prems(4) [OF that] by (auto intro: less_SucI)
    with Cons.prems True show ?thesis
      using Cons.IH [of "i + 1" board msk mv] by simp
  next
    case False
    define k where "k = 7 * (i mod 7) + (5 - i div 7)"
    define b :: uint64 where "b = (if c = CHR ''x'' then 1 else 0)"
    have k64: "k < 64" using i42 by (simp add: k_def)
    have step: "board_loop (i + 1) cs (board OR push_bit k b, msk OR push_bit k 1, mv + 1)
        = (board', msk', mv')"
      using Cons.prems(5) False cell_index [OF i42] by (simp add: Let_def k_def b_def)
    have fresh: "\<not> bit msk k"
    proof
      assume "bit msk k"
      then obtain j where "j < i" "k = 7 * (j mod 7) + (5 - j div 7)"
        using Cons.prems(4) by blast
      then have "j < 42" "7 * (i mod 7) + (5 - i div 7) = 7 * (j mod 7) + (5 - j div 7)"
        using i42 by (simp_all add: k_def)
      with i42 have "i = j" by (rule cell_index_inj)
      with \<open>j < i\<close> show False by simp
    qed
    have sub: "bit board n \<Longrightarrow> bit msk n" for n
      using Cons.prems(2) by (metis bit_and_iff)
    have 1: "(board OR push_bit k b) AND (msk OR push_bit k 1) = board OR push_bit k b"
      by (rule bit_word_eqI)
        (auto simp add: b_def bit_and_iff bit_or_iff bit_push_bit_iff bit_1_iff bit_exp_iff
          dest: sub)
    have 2: "mv + 1 = int (popcount (msk OR push_bit k 1))"
      using Cons.prems(3) popcount_set_bit [OF fresh k64] by simp
    have 3: "\<exists>j<i + 1. n = 7 * (j mod 7) + (5 - j div 7)" if "bit (msk OR push_bit k 1) n" for n
    proof (cases "bit msk n")
      case True
      then show ?thesis using Cons.prems(4) by (auto intro: less_SucI)
    next
      case False
      with that have "n = k" by (auto simp add: bit_or_iff bit_push_bit_iff bit_1_iff bit_exp_iff)
      then show ?thesis by (auto simp add: k_def)
    qed
    from Cons.prems(1) have "i + 1 + length cs \<le> 42" by simp
    from Cons.IH [OF this 1 2 3 step] show ?thesis by blast
  qed
qed

text \<open>A string is accepted exactly when it has \<open>BoardSize\<close> significant characters.\<close>

lemma PositionFromBoardString_accepts_iff:
  "(\<exists>p. PositionFromBoardString s = Inr p) \<longleftrightarrow>
     length (filter (\<lambda>c. c = CHR ''.'' \<or> c = CHR ''o'' \<or> c = CHR ''x'') (ToLower s)) = BoardSize"
  by (auto simp add: PositionFromBoardString_def Let_def split: prod.splits)

text \<open>
  C10. Every position \<open>PositionFromBoardString\<close> returns, whether or not the board it describes
  can be reached by play, has the current-player mask within the occupancy mask, a move
  count equal to the population count of the occupancy mask, and no bit outside
  \<open>board_mask\<close> (so no sentinel bit) in either mask.
\<close>

theorem PositionFromBoardString_invariants:
  assumes "PositionFromBoardString s = Inr p"
  shows "Board p AND Mask p = Board p
         \<and> moves p = int (popcount (Mask p))
         \<and> Board p AND NOT board_mask = 0
         \<and> Mask p AND NOT board_mask = 0"
proof -
  define chars where
    "chars = filter (\<lambda>c. c = CHR ''.'' \<or> c = CHR ''o'' \<or> c = CHR ''x'') (ToLower s)"
  have len: "length chars = 42"
    using assms unfolding PositionFromBoardString_def chars_def [symmetric] Let_def
    by (simp add: BoardSize_def W_def H_def split: if_splits)
  obtain board msk mv where loop: "board_loop 0 chars (0, 0, 0) = (board, msk, mv)"
    by (metis prod_cases3)
  have p: "p = \<lparr>Board = board, Mask = msk, moves = mv\<rparr>"
    using assms len loop unfolding PositionFromBoardString_def chars_def [symmetric] Let_def
    by (simp add: BoardSize_def W_def H_def)
  have inv: "board AND msk = board \<and> mv = int (popcount msk)
      \<and> (\<forall>n. bit msk n \<longrightarrow> (\<exists>j<42. n = 7 * (j mod 7) + (5 - j div 7)))"
  proof (rule board_loop_invariants [OF _ _ _ _ loop])
    show "0 + length chars \<le> 42" using len by simp
    show "(0 :: uint64) AND 0 = 0" by simp
    show "(0 :: int) = int (popcount 0)" by (simp add: popcount_eq_0_iff)
    show "\<exists>j<0. n = 7 * (j mod 7) + (5 - j div 7)" if "bit (0 :: uint64) n" for n
      using that by simp
  qed
  have mb: "bit board_mask n" if bn: "bit msk n" for n
  proof -
    obtain j where "j < 42" "n = 7 * (j mod 7) + (5 - j div 7)"
      using inv bn by blast
    define a b where "a = j mod 7" and "b = 5 - j div 7"
    have "a \<le> 6" "b \<le> 5" "n = 7 * a + b"
      using \<open>n = 7 * (j mod 7) + (5 - j div 7)\<close> by (simp_all add: a_def b_def)
    then show ?thesis by (simp add: bit_board_mask_iff)
  qed
  have bm: "bit msk n" if "bit board n" for n
    using inv that by (metis bit_and_iff)
  have "msk AND NOT board_mask = 0"
    by (rule bit_word_eqI) (auto simp add: bit_and_iff bit_not_iff dest: mb)
  moreover have "board AND NOT board_mask = 0"
    by (rule bit_word_eqI) (auto simp add: bit_and_iff bit_not_iff dest: mb bm)
  ultimately show ?thesis using inv by (simp add: p)
qed

text \<open>
  A board that play cannot reach: discs of both players float in the top corners. Upper
  case is folded and the row separators are dropped.
\<close>

theorem PositionFromBoardString_invariants_witness:
  "PositionFromBoardString ''X.....O|.......|.......|.......|.......|...o...''
     = Inr \<lparr>Board = 0x20, Mask = 0x800000200020, moves = 3\<rparr>
   \<and> (0x20 :: uint64) AND 0x800000200020 = 0x20
   \<and> (3 :: int) = int (popcount 0x800000200020)
   \<and> (0x20 :: uint64) AND NOT board_mask = 0
   \<and> (0x800000200020 :: uint64) AND NOT board_mask = 0"
proof -
  have e: "PositionFromBoardString ''X.....O|.......|.......|.......|.......|...o...''
      = Inr \<lparr>Board = 0x20, Mask = 0x800000200020, moves = 3\<rparr>"
    by code_simp
  from PositionFromBoardString_invariants [OF e] e show ?thesis
    by simp
qed

section \<open>GetKey and the mirrored position\<close>

text \<open>The bits of a column mask: the six cells of the column.\<close>

lemma bit_column_mask_iff:
  "bit (column_mask c) n \<longleftrightarrow> 7 * c \<le> n \<and> n < 7 * c + 6 \<and> n < 64"
proof -
  have "push_bit 6 1 - 1 = (mask 6 :: uint64)"
    by (simp add: mask_eq_exp_minus_1)
  then have "column_mask c = push_bit (7 * c) (mask 6)"
    by (simp add: column_mask_def H_def mult.commute)
  then show ?thesis
    by (auto simp add: bit_push_bit_iff bit_mask_iff)
qed

text \<open>
  The loop of \<open>get_mirrored_bitmasks\<close> unrolled: columns 0, 1, 2 change places with columns
  6, 5, 4 and the centre column 3 stays.
\<close>

lemma get_mirrored_bitmasks_unfold:
  "get_mirrored_bitmasks self =
    (push_bit 42 (Board self AND column_mask 0) OR drop_bit 42 (Board self AND column_mask 6)
       OR (push_bit 28 (Board self AND column_mask 1) OR drop_bit 28 (Board self AND column_mask 5))
       OR (push_bit 14 (Board self AND column_mask 2) OR drop_bit 14 (Board self AND column_mask 4))
       OR (Board self AND column_mask 3),
     push_bit 42 (Mask self AND column_mask 0) OR drop_bit 42 (Mask self AND column_mask 6)
       OR (push_bit 28 (Mask self AND column_mask 1) OR drop_bit 28 (Mask self AND column_mask 5))
       OR (push_bit 14 (Mask self AND column_mask 2) OR drop_bit 14 (Mask self AND column_mask 4))
       OR (Mask self AND column_mask 3))"
proof -
  have "[0..<Centre] = [0, 1, 2]"
    by (simp add: Centre_def W_def upt_rec)
  moreover have "W AND 1 = 1"
    by (simp add: W_def)
  ultimately show ?thesis
    by (simp add: get_mirrored_bitmasks_def mirror_step_def W_def H_def Centre_def or.assoc)
qed

lemma get_mirrored_bitmasks_eq:
  "get_mirrored_bitmasks self = (mirror_bits (Board self), mirror_bits (Mask self))"
  by (simp add: mirror_bits_def get_mirrored_bitmasks_unfold)

lemma mirror_bits_unfold:
  "mirror_bits x =
     push_bit 42 (x AND column_mask 0) OR drop_bit 42 (x AND column_mask 6)
       OR (push_bit 28 (x AND column_mask 1) OR drop_bit 28 (x AND column_mask 5))
       OR (push_bit 14 (x AND column_mask 2) OR drop_bit 14 (x AND column_mask 4))
       OR (x AND column_mask 3)"
  by (simp add: mirror_bits_def get_mirrored_bitmasks_unfold)

text \<open>
  Bit by bit: the cell of column \<open>q\<close> and row \<open>r\<close> of the result is the cell of column
  \<open>6 - q\<close> and row \<open>r\<close> of the argument; sentinel bits and bits from 49 on are dropped.
\<close>

lemma bit_mirror_bits_cell:
  assumes "r < 7"
  shows "bit (mirror_bits x) (7 * q + r) \<longleftrightarrow> q < 7 \<and> r < 6 \<and> bit x (7 * (6 - q) + r)"
proof -
  consider "q = 0" | "q = 1" | "q = 2" | "q = 3" | "q = 4" | "q = 5" | "q = 6" | "7 \<le> q"
    by linarith
  then show ?thesis
  proof cases
    case 1
    then show ?thesis using assms
      by (auto simp add: mirror_bits_unfold bit_or_iff bit_and_iff bit_push_bit_iff
          bit_drop_bit_eq bit_column_mask_iff add.commute)
  next
    case 2
    then show ?thesis using assms
      by (auto simp add: mirror_bits_unfold bit_or_iff bit_and_iff bit_push_bit_iff
          bit_drop_bit_eq bit_column_mask_iff add.commute)
  next
    case 3
    then show ?thesis using assms
      by (auto simp add: mirror_bits_unfold bit_or_iff bit_and_iff bit_push_bit_iff
          bit_drop_bit_eq bit_column_mask_iff add.commute)
  next
    case 4
    then show ?thesis using assms
      by (auto simp add: mirror_bits_unfold bit_or_iff bit_and_iff bit_push_bit_iff
          bit_drop_bit_eq bit_column_mask_iff add.commute)
  next
    case 5
    then show ?thesis using assms
      by (auto simp add: mirror_bits_unfold bit_or_iff bit_and_iff bit_push_bit_iff
          bit_drop_bit_eq bit_column_mask_iff add.commute)
  next
    case 6
    then show ?thesis using assms
      by (auto simp add: mirror_bits_unfold bit_or_iff bit_and_iff bit_push_bit_iff
          bit_drop_bit_eq bit_column_mask_iff add.commute)
  next
    case 7
    then show ?thesis using assms
      by (auto simp add: mirror_bits_unfold bit_or_iff bit_and_iff bit_push_bit_iff
          bit_drop_bit_eq bit_column_mask_iff add.commute)
  next
    case 8
    then show ?thesis using assms
      by (auto simp add: mirror_bits_unfold bit_or_iff bit_and_iff bit_push_bit_iff
          bit_drop_bit_eq bit_column_mask_iff add.commute)
  qed
qed

lemma bit_mirror_bits_iff:
  "bit (mirror_bits x) n \<longleftrightarrow> n < 49 \<and> n mod 7 < 6 \<and> bit x (7 * (6 - n div 7) + n mod 7)"
proof -
  have "bit (mirror_bits x) (7 * (n div 7) + n mod 7) \<longleftrightarrow>
      n div 7 < 7 \<and> n mod 7 < 6 \<and> bit x (7 * (6 - n div 7) + n mod 7)"
    by (rule bit_mirror_bits_cell) simp
  moreover have "n div 7 < 7 \<longleftrightarrow> n < 49"
    by auto
  ultimately show ?thesis
    by simp
qed

lemma within_board_bit:
  fixes x :: uint64
  assumes "x AND NOT board_mask = 0" and "bit x n"
  shows "n < 49 \<and> n mod 7 < 6"
proof -
  have "bit board_mask n"
    using assms
    by (metis bit_0_eq bit_and_iff bit_not_iff bot_apply bot_bool_def bit_imp_possible_bit)
  then show ?thesis by (simp add: bit_board_mask_iff)
qed

lemma mirror_bits_within_board: "mirror_bits x AND NOT board_mask = 0"
  by (rule bit_word_eqI)
    (auto simp add: bit_and_iff bit_not_iff bit_mirror_bits_iff bit_board_mask_iff)

text \<open>
  On a mask within the board, mirroring twice gives the mask back, and the code's result is
  the only column-reversed image within the board.
\<close>

lemma mirror_bits_involution:
  assumes "x AND NOT board_mask = 0"
  shows "mirror_bits (mirror_bits x) = x"
proof (rule bit_word_eqI)
  fix n assume "n < LENGTH(64)"
  show "bit (mirror_bits (mirror_bits x)) n \<longleftrightarrow> bit x n"
  proof (cases "n < 49 \<and> n mod 7 < 6")
    case False
    then show ?thesis
      using within_board_bit [OF assms, of n] by (auto simp add: bit_mirror_bits_iff)
  next
    case True
    then have q: "n div 7 \<le> 6" by auto
    have "bit (mirror_bits (mirror_bits x)) n \<longleftrightarrow> bit (mirror_bits x) (7 * (6 - n div 7) + n mod 7)"
      using True by (simp add: bit_mirror_bits_iff [of "mirror_bits x"])
    also have "\<dots> \<longleftrightarrow> bit x (7 * (6 - (6 - n div 7)) + n mod 7)"
    proof -
      have "6 - n div 7 < 7" by arith
      with True show ?thesis by (simp add: bit_mirror_bits_cell)
    qed
    also have "7 * (6 - (6 - n div 7)) + n mod 7 = n"
      using q by simp
    finally show ?thesis .
  qed
qed

lemma mirror_of_unique:
  assumes m: "mirror_of x y" and y: "y AND NOT board_mask = 0"
  shows "y = mirror_bits x"
proof (rule bit_word_eqI)
  fix n assume "n < LENGTH(64)"
  show "bit y n \<longleftrightarrow> bit (mirror_bits x) n"
  proof (cases "n < 49 \<and> n mod 7 < 6")
    case False
    then show ?thesis
      using within_board_bit [OF y, of n] by (auto simp add: bit_mirror_bits_iff)
  next
    case True
    then have "n div 7 \<in> {0..<W}" "n mod 7 \<in> {0..<H}"
      by (auto simp add: W_def H_def)
    with m have "bit y (n mod 7 + n div 7 * (H + 1)) = bit x (n mod 7 + (W - 1 - n div 7) * (H + 1))"
      unfolding mirror_of_def by blast
    moreover have "n mod 7 + n div 7 * (H + 1) = n"
      by (simp add: H_def)
    moreover have "n mod 7 + (W - 1 - n div 7) * (H + 1) = 7 * (6 - n div 7) + n mod 7"
      by (simp add: W_def H_def)
    ultimately show ?thesis
      using True by (simp add: bit_mirror_bits_iff add.commute)
  qed
qed

lemma mirror_of_mirror_bits: "mirror_of x (mirror_bits x)"
  unfolding mirror_of_def
proof (intro ballI)
  fix c r assume "c \<in> {0..<W}" "r \<in> {0..<H}"
  then have c: "c < 7" and r: "r < 6" by (simp_all add: W_def H_def)
  then have "bit (mirror_bits x) (7 * c + r) \<longleftrightarrow> bit x (7 * (6 - c) + r)"
    by (simp add: bit_mirror_bits_cell)
  then show "bit (mirror_bits x) (r + c * (H + 1)) = bit x (r + (W - 1 - c) * (H + 1))"
    by (simp add: W_def H_def add.commute mult.commute)
qed

lemma GetKey_min:
  "GetKey p = min (Board p + Mask p) (mirror_bits (Board p) + mirror_bits (Mask p))"
  by (auto simp add: GetKey_def get_mirrored_bitmasks_eq Let_def min_def)

text \<open>
  On a reached position the pair \<open>get_mirrored_bitmasks\<close> returns is a position with the same
  key.
\<close>

lemma GetKey_mirrored_reachable:
  assumes "reachable p"
  shows "GetKey \<lparr>Board = mirror_bits (Board p), Mask = mirror_bits (Mask p), moves = moves p\<rparr>
          = GetKey p"
proof -
  have "mirror_bits (mirror_bits (Board p)) = Board p"
    "mirror_bits (mirror_bits (Mask p)) = Mask p"
    using reachable_within_board [OF assms] by (simp_all add: mirror_bits_involution)
  then show ?thesis
    by (simp add: GetKey_min min.commute)
qed

text \<open>
  C6. For every position \<open>p\<close> (its masks within \<open>board_mask\<close>, as the representation keeps
  them), \<open>GetKey()\<close> is the minimum of \<open>occupancy_mask + current_player_mask\<close> over \<open>p\<close> and over
  its horizontal mirror \<open>q\<close>, the position with column \<open>c\<close> and column \<open>W - 1 - c\<close> exchanged
  and the centre column fixed; hence \<open>GetKey()\<close> gives \<open>p\<close> and \<open>q\<close> the same key.
\<close>

theorem GetKey_mirror:
  assumes "Board p AND NOT board_mask = 0" and "Mask p AND NOT board_mask = 0"
    and "Board q AND NOT board_mask = 0" and "Mask q AND NOT board_mask = 0"
    and "mirror_of (Board p) (Board q)" and "mirror_of (Mask p) (Mask q)"
  shows "GetKey p = min (Board p + Mask p) (Board q + Mask q) \<and> GetKey q = GetKey p"
proof -
  have b: "Board q = mirror_bits (Board p)"
    using assms(5,3) by (rule mirror_of_unique)
  have m: "Mask q = mirror_bits (Mask p)"
    using assms(6,4) by (rule mirror_of_unique)
  have "mirror_bits (Board q) = Board p" "mirror_bits (Mask q) = Mask p"
    using assms(1,2) by (simp_all add: b m mirror_bits_involution)
  then show ?thesis
    by (simp add: GetKey_min b m min.commute)
qed

text \<open>
  The position after \<open>Play(0)\<close>, \<open>Play(1)\<close> on the empty board and its mirror image, with discs
  in columns 6 and 5.
\<close>

theorem GetKey_mirror_witness:
  "(1 :: uint64) AND NOT board_mask = 0
   \<and> (0x81 :: uint64) AND NOT board_mask = 0
   \<and> (0x40000000000 :: uint64) AND NOT board_mask = 0
   \<and> (0x40800000000 :: uint64) AND NOT board_mask = 0
   \<and> mirror_of 1 0x40000000000
   \<and> mirror_of 0x81 0x40800000000
   \<and> GetKey \<lparr>Board = 1, Mask = 0x81, moves = 2\<rparr> = 0x82
   \<and> GetKey \<lparr>Board = 0x40000000000, Mask = 0x40800000000, moves = 2\<rparr> = 0x82"
proof -
  let ?p = "\<lparr>Board = 1, Mask = 0x81, moves = 2\<rparr>"
  let ?q = "\<lparr>Board = 0x40000000000, Mask = 0x40800000000, moves = 2\<rparr>"
  have w: "(1 :: uint64) AND NOT board_mask = 0" "(0x81 :: uint64) AND NOT board_mask = 0"
    "(0x40000000000 :: uint64) AND NOT board_mask = 0"
    "(0x40800000000 :: uint64) AND NOT board_mask = 0"
    by (simp_all add: board_mask_val)
  have m: "mirror_of 1 0x40000000000" "mirror_of 0x81 0x40800000000"
    by (simp_all add: mirror_of_def W_def H_def atLeastLessThan_upt upt_rec bit_numeral_simps)
  have k: "GetKey ?p = 0x82"
    by (simp add: GetKey_def get_mirrored_bitmasks_unfold column_mask_def H_def)
  from GetKey_mirror [of ?p ?q] w m have "GetKey ?q = GetKey ?p"
    by simp
  with w m k show ?thesis
    by simp
qed

section \<open>The index of a parsing error\<close>

text \<open>
  Since every digit is rejected on the empty board, \<open>PositionFromMoves\<close> returns no position
  and never reaches the test for a winning move.
\<close>

lemma PositionFromMoves_never_succeeds: "PositionFromMoves s \<noteq> Inr p"
  by (cases s) (simp_all add: PositionFromMoves_cases del: first_rune.simps)

lemma PositionFromMoves_never_InvalidWinningMove:
  "PositionFromMoves s \<noteq> Inl (InvalidWinningMove col i)"
  by (cases s) (simp_all add: PositionFromMoves_cases del: first_rune.simps)

text \<open>
  What the loop reports, from any position and any byte index \<open>i\<close>: \<open>InvalidCharacter\<close> and
  \<open>InvalidFullColumnMove\<close> carry the index of the rune the loop stopped at, and
  \<open>InvalidWinningMove\<close> carries 0 wherever the loop stopped.
\<close>

lemma PositionFromMoves_loop_error:
  assumes "PositionFromMoves_loop position col i s = Inl e"
  shows "case e of
           InvalidCharacter c k \<Rightarrow>
             int i \<le> k \<and> nat k - i < length s \<and> c = first_rune (drop (nat k - i) s)
             \<and> \<not> is_digit c
         | InvalidFullColumnMove n k \<Rightarrow>
             int i \<le> k \<and> nat k - i < length s
             \<and> n = int (first_rune (drop (nat k - i) s)) - 48 + 1
         | InvalidWinningMove n k \<Rightarrow> k = 0
         | InvalidColumn n k \<Rightarrow> k = 0
         | InvalidBoardStringLength a b \<Rightarrow> False"
  using assms
proof (induction s arbitrary: position col i)
  case Nil
  then show ?case by (auto split: if_splits)
next
  case (Cons b bs)
  define c where "c = first_rune (b # bs)"
  show ?case
  proof (cases "is_digit c \<and> IsPlayable position (nat (int c - 48))
      \<and> \<not> IsWinningMove position (nat (int c - 48))")
    case False
    then show ?thesis
      using Cons.prems unfolding PositionFromMoves_loop.simps c_def [symmetric] Let_def
      by (auto simp add: c_def simp del: first_rune.simps split: if_splits)
  next
    case True
    then have rec: "PositionFromMoves_loop (Play position (nat (int c - 48))) (int c - 48)
        (i + 1) bs = Inl e"
      using Cons.prems unfolding PositionFromMoves_loop.simps c_def [symmetric] Let_def
      by simp
    have shift: "drop (nat k - i) (b # bs) = drop (nat k - (i + 1)) bs
        \<and> (nat k - (i + 1) < length bs \<longrightarrow> nat k - i < length (b # bs))"
      if "int (i + 1) \<le> k" for k
    proof -
      from that have "nat k - i = Suc (nat k - (i + 1))" by linarith
      then show ?thesis by simp
    qed
    show ?thesis
    proof (cases e)
      case (InvalidCharacter r k)
      with Cons.IH [OF rec] have "int (i + 1) \<le> k" by simp
      with shift [OF this] Cons.IH [OF rec] InvalidCharacter show ?thesis by auto
    next
      case (InvalidFullColumnMove n k)
      with Cons.IH [OF rec] have "int (i + 1) \<le> k" by simp
      with shift [OF this] Cons.IH [OF rec] InvalidFullColumnMove show ?thesis by auto
    qed (use Cons.IH [OF rec] in simp_all)
  qed
qed


end
